theory Spec2Isabelle
  imports Main "HOL-Library.AList"
begin

section \<open>The field tree (App.tsx, interface Field)\<close>

text \<open>
  \<^verbatim>\<open>interface Field { key: string; type: "String" | "Number" | "Nested"; children: Field[] }\<close>

  \<open>generateSchema\<close> only reads its argument, so it is modelled on tree values. The editing
  operations of \<open>FieldEditor\<close> share node objects between arrays and one of them writes to a
  shared node, so they are modelled on an explicit store further down.
\<close>

datatype ftype = String | Number | Nested

datatype Field = Field (key: string) (type: ftype) (children: "Field list")

section \<open>The derived object\<close>

text \<open>
  The values \<open>generateSchema\<close> builds: the string \<open>""\<close>, the number \<open>0\<close> and ordinary
  JavaScript objects created by the literal \<open>{}\<close>. An object is its own properties, in the
  order of their creation, and its prototype: \<open>None\<close> stands for \<open>Object.prototype\<close>, the
  prototype of every \<open>{}\<close>; \<open>Some p\<close> for an object \<open>p\<close> installed later.
\<close>

datatype jsval = JStr string | JNum int | JObj jsobj
  and jsobj = Obj (own: "(string \<times> jsval) list") (proto: "jsobj option")

definition empty_obj :: jsobj where
  "empty_obj = Obj [] None"

text \<open>
  The assignment \<open>schema[key] = v\<close> on such an object. For every key but \<open>__proto__\<close> the
  prototype chain holds writable data properties only, so the assignment overwrites the own
  property of that name where it is, or creates it after the existing ones
  (\<^const>\<open>AList.update\<close> does exactly that). The name \<open>__proto__\<close> is an accessor of
  \<open>Object.prototype\<close>: its setter replaces the prototype when the value is an object, does
  nothing for a string or a number, and never creates an own property.
\<close>

fun js_set :: "jsobj \<Rightarrow> string \<Rightarrow> jsval \<Rightarrow> jsobj" where
  "js_set (Obj ps pr) k v =
     (if k = ''__proto__''
      then (case v of JObj p \<Rightarrow> Obj ps (Some p) | _ \<Rightarrow> Obj ps pr)
      else Obj (AList.update k v ps) pr)"

text \<open>
  \<^verbatim>\<open>
  const getDefaultValue = (type) => {
    switch (type) {
      case "String": return "";
      case "Number": return 0;
      case "Nested": return {};
      default:       return "";
    }
  };
  \<close>
  The \<open>default\<close> branch is beyond the three values of the type.
\<close>

fun getDefaultValue :: "ftype \<Rightarrow> jsval" where
  "getDefaultValue String = JStr ''''"
| "getDefaultValue Number = JNum 0"
| "getDefaultValue Nested = JObj empty_obj"

text \<open>
  \<^verbatim>\<open>
  const generateSchema = (fields) => {
    const schema = {};
    fields.forEach(({ key, type, children }) => {
      if (!key) return;
      if (type === "Nested") { schema[key] = generateSchema(children); }
      else                   { schema[key] = getDefaultValue(type); }
    });
    return schema;
  };
  \<close>
  \<open>forEach\<close> is a left fold over the array that threads \<open>schema\<close>; \<open>!key\<close> holds of the empty
  string only.
\<close>

function generateSchema :: "Field list \<Rightarrow> jsobj" where
  "generateSchema fields =
     foldl (\<lambda>schema f.
              if key f = '''' then schema
              else if type f = Nested
                   then js_set schema (key f) (JObj (generateSchema (children f)))
                   else js_set schema (key f) (getDefaultValue (type f)))
           empty_obj fields"
  by pat_completeness auto
termination
proof (relation "measure (size_list size)")
  fix fields :: "Field list" and f :: Field
  assume "f \<in> set fields"
  then have "size f \<le> size_list size fields"
    by (simp add: size_list_estimation')
  moreover have "size_list size (children f) < size f"
    by (cases f) simp
  ultimately show "(children f, fields) \<in> measure (size_list size)"
    by simp
qed simp

declare generateSchema.simps [simp del]

text \<open>
  The value one node stores, and the body of the \<open>forEach\<close> callback, named so that the
  loop can be reasoned about one node at a time.
\<close>

definition entry :: "Field \<Rightarrow> jsval" where
  "entry f = (if type f = Nested then JObj (generateSchema (children f))
              else getDefaultValue (type f))"

definition visit :: "jsobj \<Rightarrow> Field \<Rightarrow> jsobj" where
  "visit schema f = (if key f = '''' then schema else js_set schema (key f) (entry f))"

subsection \<open>What the output shows of an object\<close>

text \<open>
  \<open>Object.keys\<close>, \<open>Object.entries\<close> and \<open>JSON.stringify\<close> enumerate the own properties of
  an ordinary object in the order of \<open>OrdinaryOwnPropertyKeys\<close>: first the keys that are
  array indices (the canonical decimal numeral of an integer from \<open>0\<close> to \<open>2\<^sup>3\<^sup>2 - 2\<close>), in
  ascending numeric order, then every other key in the order of its creation. The prototype
  is not enumerated.
\<close>

definition is_digit :: "char \<Rightarrow> bool" where
  "is_digit c = (c \<in> set ''0123456789'')"

definition dec_val :: "string \<Rightarrow> int" where
  "dec_val s = foldl (\<lambda>n c. 10 * n + (of_char c - 48)) 0 s"

definition is_array_index :: "string \<Rightarrow> bool" where
  "is_array_index s =
     (s \<noteq> [] \<and> list_all is_digit s \<and> (if hd s = CHR ''0'' then s = ''0'' else True)
      \<and> dec_val s < 4294967295)"

definition own_entries :: "jsobj \<Rightarrow> (string \<times> jsval) list" where
  "own_entries obj =
     sort_key (\<lambda>p. dec_val (fst p)) (filter (\<lambda>p. is_array_index (fst p)) (own obj))
     @ filter (\<lambda>p. \<not> is_array_index (fst p)) (own obj)"

definition own_keys :: "jsobj \<Rightarrow> string list" where
  "own_keys obj = map fst (own_entries obj)"

text \<open>The entry the output has under a key: the own property of that name, if any.\<close>

definition own_lookup :: "jsobj \<Rightarrow> string \<Rightarrow> jsval option" where
  "own_lookup obj k = map_of (own obj) k"

section \<open>The editing operations of \<open>FieldEditor\<close>\<close>

text \<open>
  A \<open>Field\<close> object lives in the store and is named by a reference; an array of fields is a
  list of references. Every array the operations hand to \<open>setFields\<close> is a fresh copy
  (\<open>[...fields]\<close>, \<open>filter\<close>) that is written, if at all, before it is handed over, so an
  array is modelled by its value. Node objects are shared between the copies, and
  \<open>updateChildren\<close> assigns to one, so node objects are modelled by their address: the store
  is the list of all objects allocated so far and a reference is a position in it.
\<close>

type_synonym ref = nat

datatype FieldObj = FieldObj (okey: string) (otype: ftype) (ochildren: "ref list")

type_synonym store = "FieldObj list"

definition alloc :: "store \<Rightarrow> FieldObj \<Rightarrow> store \<times> ref" where
  "alloc h obj = (h @ [obj], length h)"

text \<open>
  The tree an array of references stands for in a store, read to a depth of at most \<open>n\<close>
  levels; \<open>None\<close> when a reference points outside the store or the tree is deeper.
\<close>

fun tree_of :: "nat \<Rightarrow> store \<Rightarrow> ref list \<Rightarrow> Field list option" where
  "tree_of 0 h rs = (if rs = [] then Some [] else None)"
| "tree_of (Suc n) h rs =
     those (map (\<lambda>r. if r < length h
                      then map_option (Field (okey (h ! r)) (otype (h ! r)))
                             (tree_of n h (ochildren (h ! r)))
                      else None) rs)"

definition reads :: "store \<Rightarrow> ref list \<Rightarrow> Field list \<Rightarrow> bool" where
  "reads h rs t = (\<exists>n. tree_of n h rs = Some t)"

text \<open>
  What an operation can end in besides a new array: \<open>TypeError\<close> is the exception JavaScript
  raises on \<open>undefined.children = ...\<close>; \<open>NotFields\<close> marks an array that is no longer a
  \<open>Field[]\<close> (see \<open>updateField\<close>); \<open>Dangling\<close> is a reference outside the store, which no
  JavaScript program can produce.
\<close>

datatype error = TypeError | NotFields | Dangling

text \<open>\<^verbatim>\<open>const defaultField = (): Field => ({ key: "", type: "String", children: [] });\<close>\<close>

definition defaultField :: FieldObj where
  "defaultField = FieldObj '''' String []"

text \<open>
  \<open>Partial<Field>\<close>: any subset of the three properties. The spread
  \<open>{ ...newFields[index], ...updated }\<close> creates a new object with the properties of the old
  one, those in \<open>updated\<close> taking precedence; \<open>children\<close> is copied as a reference.
\<close>

datatype Partial =
  Partial (pkey: "string option") (ptype: "ftype option") (pchildren: "ref list option")

definition spread :: "FieldObj \<Rightarrow> Partial \<Rightarrow> FieldObj" where
  "spread obj updated =
     FieldObj (case pkey updated of None \<Rightarrow> okey obj | Some k \<Rightarrow> k)
              (case ptype updated of None \<Rightarrow> otype obj | Some t \<Rightarrow> t)
              (case pchildren updated of None \<Rightarrow> ochildren obj | Some cs \<Rightarrow> cs)"

definition in_range :: "'a list \<Rightarrow> int \<Rightarrow> bool" where
  "in_range fields index = (0 \<le> index \<and> index < int (length fields))"

text \<open>
  \<^verbatim>\<open>
  const updateField = (index, updated) => {
    const newFields = [...fields];
    newFields[index] = { ...newFields[index], ...updated };
    setFields(newFields);
  };
  \<close>
  The result is the store after the call and the array passed to \<open>setFields\<close>. With an index
  outside the array JavaScript spreads \<open>undefined\<close> and stores an object that has the
  properties of \<open>updated\<close> only, past the end of the copy (leaving holes) or under a negative
  property name: the array is not a \<open>Field[]\<close> any more, and the model ends in \<open>NotFields\<close>.
\<close>

definition updateField ::
  "store \<Rightarrow> ref list \<Rightarrow> int \<Rightarrow> Partial \<Rightarrow> error + store \<times> ref list" where
  "updateField h fields index updated =
     (if in_range fields index
      then (let newFields = fields; r = newFields ! nat index
            in if r < length h
               then (let (h', r') = alloc h (spread (h ! r) updated)
                     in Inr (h', newFields[nat index := r']))
               else Inl Dangling)
      else Inl NotFields)"

text \<open>\<^verbatim>\<open>const addField = () => setFields([...fields, defaultField()]);\<close>\<close>

definition addField :: "store \<Rightarrow> ref list \<Rightarrow> store \<times> ref list" where
  "addField h fields = (let (h', r) = alloc h defaultField in (h', fields @ [r]))"

text \<open>
  \<^verbatim>\<open>
  const removeField = (index) => {
    const newFields = fields.filter((_, i) => i !== index);
    setFields(newFields);
  };
  \<close>
  \<open>filter\<close> looks at positions only and touches no object, so the store is not involved.
\<close>

definition removeField :: "'a list \<Rightarrow> int \<Rightarrow> 'a list" where
  "removeField fields index =
     map fst (filter (\<lambda>(_, i). int i \<noteq> index) (zip fields [0 ..< length fields]))"

text \<open>
  \<^verbatim>\<open>
  const updateChildren = (index, children) => {
    const newFields = [...fields];
    newFields[index].children = children;
    setFields(newFields);
  };
  \<close>
  \<open>newFields[index]\<close> is the object \<open>fields[index]\<close> itself: the assignment writes to the
  store at that reference, and the copied array holds the references it held. With an index
  outside the array \<open>newFields[index]\<close> is \<open>undefined\<close> and the assignment raises.
\<close>

definition updateChildren ::
  "store \<Rightarrow> ref list \<Rightarrow> int \<Rightarrow> ref list \<Rightarrow> error + store \<times> ref list" where
  "updateChildren h fields index children' =
     (if in_range fields index
      then (let newFields = fields; r = newFields ! nat index
            in if r < length h
               then Inr (h[r := FieldObj (okey (h ! r)) (otype (h ! r)) children'], newFields)
               else Inl Dangling)
      else Inl TypeError)"

section \<open>The JSON output tab\<close>

text \<open>
  \<open>JSON.stringify(value, null, 2)\<close> as ECMA-262 defines it (\<open>QuoteJSONString\<close>,
  \<open>SerializeJSONProperty\<close>, \<open>SerializeJSONObject\<close>), for the values \<open>generateSchema\<close> builds.
  A \<open>char\<close> stands for a code unit below 256; the escapes of lone surrogates are beyond
  this model. Numbers are printed as integers in decimal, which is what \<open>Number::toString\<close>
  gives for integers of magnitude below \<open>10\<^sup>2\<^sup>1\<close>. No value has a callable \<open>toJSON\<close>, and the
  replacer is \<open>null\<close>.
\<close>

definition hex_digits :: string where
  "hex_digits = ''0123456789abcdef''"

definition decimal_digits :: string where
  "decimal_digits = ''0123456789''"

definition hex4 :: "nat \<Rightarrow> string" where
  "hex4 n = map (\<lambda>i. hex_digits ! ((n div 16 ^ i) mod 16)) [3, 2, 1, 0]"

definition quote_char :: "char \<Rightarrow> string" where
  "quote_char c =
     (if c = CHR 0x08 then [CHR 0x5C, CHR ''b'']
      else if c = CHR 0x09 then [CHR 0x5C, CHR ''t'']
      else if c = CHR 0x0A then [CHR 0x5C, CHR ''n'']
      else if c = CHR 0x0C then [CHR 0x5C, CHR ''f'']
      else if c = CHR 0x0D then [CHR 0x5C, CHR ''r'']
      else if c = CHR 0x22 then [CHR 0x5C, CHR 0x22]
      else if c = CHR 0x5C then [CHR 0x5C, CHR 0x5C]
      else if of_char c < (32 :: nat) then [CHR 0x5C, CHR ''u''] @ hex4 (of_char c)
      else [c])"

definition QuoteJSONString :: "string \<Rightarrow> string" where
  "QuoteJSONString s = [CHR 0x22] @ concat (map quote_char s) @ [CHR 0x22]"

fun dec_digits :: "nat \<Rightarrow> string" where
  "dec_digits n =
     (if n < 10 then [decimal_digits ! n]
      else dec_digits (n div 10) @ [decimal_digits ! (n mod 10)])"

declare dec_digits.simps [simp del]

definition number_to_string :: "int \<Rightarrow> string" where
  "number_to_string n = (if n < 0 then ''-'' @ dec_digits (nat (- n)) else dec_digits (nat n))"

fun join :: "'a list \<Rightarrow> 'a list list \<Rightarrow> 'a list" where
  "join sep [] = []"
| "join sep [x] = x"
| "join sep (x # y # ys) = x @ sep @ join sep (y # ys)"

text \<open>
  \<open>gap\<close> is the unit of indentation and \<open>indent\<close> the current indentation. An object without
  properties is \<open>{}\<close>; otherwise, when there is a gap, every member goes on a line of its
  own, indented by \<open>indent + gap\<close>, and the closing brace on a line indented by \<open>indent\<close>.
\<close>

function SerializeJSONProperty :: "string \<Rightarrow> string \<Rightarrow> jsval \<Rightarrow> string" where
  "SerializeJSONProperty gap indent (JStr s) = QuoteJSONString s"
| "SerializeJSONProperty gap indent (JNum n) = number_to_string n"
| "SerializeJSONProperty gap indent (JObj obj) =
     (let stepback = indent;
          indent' = indent @ gap;
          partial = map (\<lambda>p. QuoteJSONString (fst p) @ '':'' @ (if gap = [] then [] else '' '')
                               @ SerializeJSONProperty gap indent' (snd p))
                        (own_entries obj)
      in if partial = [] then ''{}''
         else if gap = [] then ''{'' @ join '','' partial @ ''}''
         else ''{'' @ [CHR 0x0A] @ indent' @ join ('','' @ [CHR 0x0A] @ indent') partial
              @ [CHR 0x0A] @ stepback @ ''}'')"
  by pat_completeness auto
termination
proof (relation "measure (\<lambda>(gap, indent, v). size v)")
  fix obj :: jsobj and p :: "string \<times> jsval"
  assume "p \<in> set (own_entries obj)"
  then have "p \<in> set (own obj)"
    by (auto simp: own_entries_def)
  moreover have "size (snd p) \<le> size_prod (\<lambda>_. 0) size p"
    by (cases p) simp
  ultimately have "size (snd p) \<le> size_list (size_prod (\<lambda>_. 0) size) (own obj)"
    by (rule size_list_estimation')
  then have "size (snd p) < size obj"
    by (cases obj) simp
  then show "((gap, indent', snd p), gap, indent, JObj obj)
      \<in> measure (\<lambda>(gap, indent, v). size v)"
    for gap indent indent' :: string
    by simp
qed simp

text \<open>
  \<open>JSON.stringify(value, null, space)\<close> with a numeric \<open>space\<close>: the gap is that many
  spaces, at most ten.
\<close>

definition JSON_stringify :: "jsobj \<Rightarrow> nat \<Rightarrow> string" where
  "JSON_stringify value space =
     SerializeJSONProperty (replicate (min 10 space) (CHR '' '')) [] (JObj value)"

text \<open>
  The content of the \<open>JSON Output\<close> tab of \<open>JsonSchemaBuilder\<close>:
  \<^verbatim>\<open>
  const schema = generateSchema(fields);
  const hasFields = fields.length > 0;
  ...
  {hasFields ? ( <pre><code>{JSON.stringify(schema, null, 2)}</code></pre> )
             : ( <div> ... Your JSON schema will appear here ... </div> )}
  \<close>
\<close>

datatype view = Code string | Placeholder

definition JsonOutput :: "Field list \<Rightarrow> view" where
  "JsonOutput fields =
     (let schema = generateSchema fields;
          hasFields = (length fields > 0)
      in if hasFields then Code (JSON_stringify schema 2) else Placeholder)"

section \<open>Notions used to state the properties\<close>

text \<open>
  The non-empty keys of a tree in node order, those of them that can become own properties
  of the derived object, and a list reduced to the first occurrence of each of its elements.
\<close>

definition named :: "Field list \<Rightarrow> string list" where
  "named t = filter (\<lambda>k. k \<noteq> '''') (map key t)"

definition listed :: "Field list \<Rightarrow> string list" where
  "listed t = filter (\<lambda>k. k \<noteq> '''' \<and> k \<noteq> ''__proto__'') (map key t)"

definition first_occurrences :: "'a list \<Rightarrow> 'a list" where
  "first_occurrences ks = rev (remdups (rev ks))"

text \<open>
  A node anywhere in a tree is named by the path of positions leading to it;
  \<open>replaceChildrenAt p cs t\<close> is \<open>t\<close> with \<open>cs\<close> as the children of the node at \<open>p\<close>.
\<close>

fun nodeAt :: "nat list \<Rightarrow> Field list \<Rightarrow> Field option" where
  "nodeAt [] t = None"
| "nodeAt [i] t = (if i < length t then Some (t ! i) else None)"
| "nodeAt (i # p) t = (if i < length t then nodeAt p (children (t ! i)) else None)"

fun replaceChildrenAt :: "nat list \<Rightarrow> Field list \<Rightarrow> Field list \<Rightarrow> Field list" where
  "replaceChildrenAt [] cs t = t"
| "replaceChildrenAt [i] cs t =
     (if i < length t then t[i := Field (key (t ! i)) (type (t ! i)) cs] else t)"
| "replaceChildrenAt (i # p) cs t =
     (if i < length t
      then t[i := Field (key (t ! i)) (type (t ! i)) (replaceChildrenAt p cs (children (t ! i)))]
      else t)"

text \<open>
  One object of the store stands for one node of a tree: its key and type are the node's
  and its array of children stands, by \<open>R\<close>, for the node's children.
\<close>

definition node_reads ::
  "(ref list \<Rightarrow> Field list \<Rightarrow> bool) \<Rightarrow> store \<Rightarrow> ref \<Rightarrow> Field \<Rightarrow> bool" where
  "node_reads R h r f =
     (r < length h \<and> key f = okey (h ! r) \<and> type f = otype (h ! r)
      \<and> R (ochildren (h ! r)) (children f))"

text \<open>
  The tree-level reading of \<open>spread\<close>: the node \<open>f\<close> with the properties given in \<open>updated\<close>
  replaced, \<open>cs\<close> being the tree that the array \<open>updated.children\<close>, if given, stands for.
\<close>

definition merged :: "Field \<Rightarrow> Partial \<Rightarrow> Field list \<Rightarrow> Field" where
  "merged f updated cs =
     Field (case pkey updated of None \<Rightarrow> key f | Some k \<Rightarrow> k)
           (case ptype updated of None \<Rightarrow> type f | Some ty \<Rightarrow> ty)
           (case pchildren updated of None \<Rightarrow> children f | Some _ \<Rightarrow> cs)"

definition reads_children :: "store \<Rightarrow> Partial \<Rightarrow> Field list \<Rightarrow> bool" where
  "reads_children h updated cs =
     (case pchildren updated of None \<Rightarrow> True | Some rs \<Rightarrow> reads h rs cs)"

text \<open>
  The derived mapping as indented JSON text, stated line by line. A row is a line of the
  text: its nesting depth and its body, the line without its indentation. A string or a
  number is one row; so is an object without properties, \<open>{}\<close>. An object with properties
  is a row that ends in \<open>{\<close>, then the rows of its members one level deeper, in the order
  \<open>own_entries\<close> gives, each member starting with its quoted key, a colon and a space and
  every member but the last ending in a comma, then a row \<open>}\<close> at the depth of the object.
  \<open>pre\<close> is what precedes the value on its first row. The text indents a row of depth \<open>d\<close>
  by \<open>2 * d\<close> spaces and separates the rows by line feeds.
\<close>

definition add_suffix :: "string \<Rightarrow> (nat \<times> string) list \<Rightarrow> (nat \<times> string) list" where
  "add_suffix s rs = (if rs = [] then [] else butlast rs @ [(fst (last rs), snd (last rs) @ s)])"

fun separate :: "(nat \<times> string) list list \<Rightarrow> (nat \<times> string) list list" where
  "separate [] = []"
| "separate [b] = [b]"
| "separate (b # c # bs) = add_suffix '','' b # separate (c # bs)"

function layout :: "nat \<Rightarrow> string \<Rightarrow> jsval \<Rightarrow> (nat \<times> string) list" where
  "layout d pre (JStr s) = [(d, pre @ QuoteJSONString s)]"
| "layout d pre (JNum n) = [(d, pre @ number_to_string n)]"
| "layout d pre (JObj obj) =
     (if own_entries obj = [] then [(d, pre @ ''{}'')]
      else (d, pre @ ''{'')
           # concat (separate (map (\<lambda>p. layout (Suc d) (QuoteJSONString (fst p) @ '': '') (snd p))
                                  (own_entries obj)))
           @ [(d, ''}'')])"
  by pat_completeness auto
termination
proof (relation "measure (\<lambda>(d, pre, v). size v)")
  fix obj :: jsobj and p :: "string \<times> jsval"
  assume "p \<in> set (own_entries obj)"
  then have "p \<in> set (own obj)"
    by (auto simp: own_entries_def)
  moreover have "size (snd p) \<le> size_prod (\<lambda>_. 0) size p"
    by (cases p) simp
  ultimately have "size (snd p) \<le> size_list (size_prod (\<lambda>_. 0) size) (own obj)"
    by (rule size_list_estimation')
  then have "size (snd p) < size obj"
    by (cases obj) simp
  then show "((d', pre', snd p), d, pre, JObj obj) \<in> measure (\<lambda>(d, pre, v). size v)"
    for d d' :: nat and pre pre' :: string
    by simp
qed simp

definition indent_row :: "nat \<times> string \<Rightarrow> string" where
  "indent_row r = replicate (2 * fst r) (CHR '' '') @ snd r"

definition render :: "(nat \<times> string) list \<Rightarrow> string" where
  "render rs = join [CHR 0x0A] (map indent_row rs)"

text \<open>
  A body is not empty, does not start with a space and contains no line feed: when every
  row has such a body, the rows are exactly the lines of the rendered text and the
  indentation of each line is exactly \<open>2 * d\<close> spaces.
\<close>

definition is_body :: "string \<Rightarrow> bool" where
  "is_body b = (b \<noteq> [] \<and> hd b \<noteq> CHR '' '' \<and> CHR 0x0A \<notin> set b)"

definition proper_rows :: "(nat \<times> string) list \<Rightarrow> bool" where
  "proper_rows rs = list_all (\<lambda>r. is_body (snd r)) rs"

section \<open>The derivation, one node at a time\<close>

lemma generateSchema_foldl: "generateSchema fields = foldl visit empty_obj fields"
proof -
  have "(\<lambda>schema f. if key f = '''' then schema
              else if type f = Nested
                   then js_set schema (key f) (JObj (generateSchema (children f)))
                   else js_set schema (key f) (getDefaultValue (type f))) = visit"
    by (intro ext) (simp add: visit_def entry_def)
  then show ?thesis
    by (subst generateSchema.simps) simp
qed

lemma generateSchema_Nil: "generateSchema [] = empty_obj"
  by (simp add: generateSchema_foldl)

lemma generateSchema_snoc: "generateSchema (fs @ [f]) = visit (generateSchema fs) f"
  by (simp add: generateSchema_foldl)

lemma own_js_set:
  "own (js_set s k v) = (if k = ''__proto__'' then own s else AList.update k v (own s))"
  by (cases s) (simp split: jsval.splits)

lemma own_visit:
  "own (visit s f) =
     (if key f = '''' \<or> key f = ''__proto__'' then own s
      else AList.update (key f) (entry f) (own s))"
  by (simp add: visit_def own_js_set)

lemma first_occurrences_snoc:
  "first_occurrences (ks @ [k]) =
     (if k \<in> set ks then first_occurrences ks else first_occurrences ks @ [k])"
  by (simp add: first_occurrences_def)

lemma set_first_occurrences: "set (first_occurrences ks) = set ks"
  by (simp add: first_occurrences_def)

lemma listed_snoc:
  "listed (fs @ [f]) =
     (if key f = '''' \<or> key f = ''__proto__'' then listed fs else listed fs @ [key f])"
  by (simp add: listed_def)

lemma keys_generateSchema:
  "map fst (own (generateSchema t)) = first_occurrences (listed t)"
proof (induction t rule: rev_induct)
  case Nil
  show ?case
    by (simp add: generateSchema_Nil empty_obj_def listed_def first_occurrences_def)
next
  case (snoc f fs)
  then show ?case
    by (simp add: generateSchema_snoc own_visit listed_snoc first_occurrences_snoc
        update_keys set_first_occurrences)
qed

lemma lookup_generateSchema_snoc:
  "own_lookup (generateSchema (fs @ [f])) k =
     (if key f = k \<and> k \<noteq> '''' \<and> k \<noteq> ''__proto__'' then Some (entry f)
      else own_lookup (generateSchema fs) k)"
  by (auto simp add: own_lookup_def generateSchema_snoc own_visit update_conv')

lemma lookup_generateSchema:
  "own_lookup (generateSchema t) k =
     (if k = '''' \<or> k = ''__proto__'' then None
      else map_option entry (find (\<lambda>f. key f = k) (rev t)))"
proof (induction t rule: rev_induct)
  case Nil
  show ?case by (simp add: generateSchema_Nil empty_obj_def own_lookup_def)
next
  case (snoc f fs)
  then show ?case
    by (auto simp add: lookup_generateSchema_snoc)
qed

lemma generateSchema_addDefault:
  "generateSchema (t @ [Field '''' String []]) = generateSchema t"
  by (simp add: generateSchema_snoc visit_def)

lemma generateSchema_cong:
  assumes "map key t = map key t'" and "map entry t = map entry t'"
  shows "generateSchema t = generateSchema t'"
proof -
  have "foldl visit s t = foldl visit s t'" for s
    using assms
  proof (induction t arbitrary: t' s)
    case Nil
    then show ?case by simp
  next
    case (Cons f fs)
    then obtain g gs where t': "t' = g # gs" by (cases t') auto
    with Cons.prems have "key f = key g" "entry f = entry g"
      "map key fs = map key gs" "map entry fs = map entry gs" by auto
    then show ?case using Cons.IH[of gs] t' by (simp add: visit_def)
  qed
  then show ?thesis by (simp add: generateSchema_foldl)
qed

section \<open>Reading trees from the store\<close>

lemma those_map_eq_Some:
  "those (map f xs) = Some ys \<longleftrightarrow> list_all2 (\<lambda>x y. f x = Some y) xs ys"
proof (induction xs arbitrary: ys)
  case Nil
  show ?case by auto
next
  case (Cons x xs)
  show ?case
  proof (cases "f x")
    case None
    then show ?thesis by (auto simp: list_all2_Cons1)
  next
    case (Some y)
    then show ?thesis using Cons.IH by (auto simp: list_all2_Cons1)
  qed
qed

lemma node_reads_mono:
  "node_reads R h r f \<Longrightarrow> (\<And>rs t. R rs t \<Longrightarrow> R' rs t) \<Longrightarrow> node_reads R' h r f"
  by (simp add: node_reads_def)

lemma tree_of_Suc_iff:
  "tree_of (Suc n) h rs = Some t \<longleftrightarrow>
     list_all2 (node_reads (\<lambda>cs ct. tree_of n h cs = Some ct) h) rs t"
proof -
  have "(if r < length h
         then map_option (Field (okey (h ! r)) (otype (h ! r))) (tree_of n h (ochildren (h ! r)))
         else None) = Some f
        \<longleftrightarrow> node_reads (\<lambda>cs ct. tree_of n h cs = Some ct) h r f" for r f
    by (cases f) (auto simp: node_reads_def)
  then show ?thesis
    by (simp add: those_map_eq_Some)
qed

lemma tree_of_Suc: "tree_of n h rs = Some t \<Longrightarrow> tree_of (Suc n) h rs = Some t"
proof (induction n arbitrary: rs t)
  case 0
  then show ?case by (simp split: if_splits)
next
  case (Suc n)
  from Suc.prems have "list_all2 (node_reads (\<lambda>cs ct. tree_of n h cs = Some ct) h) rs t"
    by (simp only: tree_of_Suc_iff)
  then have "list_all2 (node_reads (\<lambda>cs ct. tree_of (Suc n) h cs = Some ct) h) rs t"
    by (rule list_all2_mono) (erule node_reads_mono, rule Suc.IH)
  then show ?case by (simp only: tree_of_Suc_iff)
qed

lemma tree_of_le: "n \<le> m \<Longrightarrow> tree_of n h rs = Some t \<Longrightarrow> tree_of m h rs = Some t"
  by (induction m) (auto simp: le_Suc_eq simp del: tree_of.simps intro: tree_of_Suc)

lemma readsI: "tree_of n h rs = Some t \<Longrightarrow> reads h rs t"
  by (auto simp: reads_def)

lemma reads_Nil: "reads h [] []"
  by (rule readsI[of 0]) simp

lemma reads_determ: "reads h rs t \<Longrightarrow> reads h rs t' \<Longrightarrow> t = t'"
proof -
  assume "reads h rs t" and "reads h rs t'"
  then obtain n m where "tree_of n h rs = Some t" "tree_of m h rs = Some t'"
    by (auto simp: reads_def)
  then have "tree_of (max n m) h rs = Some t" "tree_of (max n m) h rs = Some t'"
    by (auto intro: tree_of_le[OF max.cobounded1] tree_of_le[OF max.cobounded2])
  then show ?thesis by simp
qed

lemma reads_iff:
  "reads h rs t \<longleftrightarrow> list_all2 (node_reads (reads h) h) rs t"
proof
  assume "reads h rs t"
  then obtain n where n: "tree_of n h rs = Some t" by (auto simp: reads_def)
  then have "tree_of (Suc n) h rs = Some t" by (rule tree_of_Suc)
  then have "list_all2 (node_reads (\<lambda>cs ct. tree_of n h cs = Some ct) h) rs t"
    by (simp only: tree_of_Suc_iff)
  then show "list_all2 (node_reads (reads h) h) rs t"
    by (rule list_all2_mono) (erule node_reads_mono, erule readsI)
next
  assume "list_all2 (node_reads (reads h) h) rs t"
  then have "\<exists>n. list_all2 (node_reads (\<lambda>cs ct. tree_of n h cs = Some ct) h) rs t"
  proof (induction rule: list_all2_induct)
    case Nil
    show ?case by simp
  next
    case (Cons r rs f fs)
    from Cons.IH obtain n
      where n: "list_all2 (node_reads (\<lambda>cs ct. tree_of n h cs = Some ct) h) rs fs" by blast
    from Cons.hyps(1) obtain m
      where m: "node_reads (\<lambda>cs ct. tree_of m h cs = Some ct) h r f"
      by (auto simp: node_reads_def reads_def)
    have "node_reads (\<lambda>cs ct. tree_of (max n m) h cs = Some ct) h r f"
      using m by (rule node_reads_mono) (rule tree_of_le[OF max.cobounded2])
    moreover have "list_all2 (node_reads (\<lambda>cs ct. tree_of (max n m) h cs = Some ct) h) rs fs"
      using n by (rule list_all2_mono) (erule node_reads_mono, rule tree_of_le[OF max.cobounded1])
    ultimately show ?case by auto
  qed
  then show "reads h rs t"
    by (auto simp only: tree_of_Suc_iff[symmetric] intro: readsI)
qed

lemma tree_of_alloc:
  "tree_of n h rs = Some t \<Longrightarrow> tree_of n (h @ [obj]) rs = Some t"
proof (induction n arbitrary: rs t)
  case 0
  then show ?case by (simp split: if_splits)
next
  case (Suc n)
  from Suc.prems have "list_all2 (node_reads (\<lambda>cs ct. tree_of n h cs = Some ct) h) rs t"
    by (simp only: tree_of_Suc_iff)
  then have "list_all2 (node_reads (\<lambda>cs ct. tree_of n (h @ [obj]) cs = Some ct) (h @ [obj])) rs t"
    by (rule list_all2_mono) (auto simp: node_reads_def nth_append intro: Suc.IH)
  then show ?case by (simp only: tree_of_Suc_iff)
qed

lemma reads_alloc: "reads h rs t \<Longrightarrow> reads (h @ [obj]) rs t"
  by (auto simp: reads_def intro: tree_of_alloc)

lemma reads_refs_valid: "reads h rs t \<Longrightarrow> r \<in> set rs \<Longrightarrow> r < length h"
  by (auto simp: reads_iff[of h rs t] list_all2_conv_all_nth in_set_conv_nth node_reads_def)

lemma reads_length: "reads h rs t \<Longrightarrow> length rs = length t"
  by (auto simp: reads_iff[of h rs t] dest: list_all2_lengthD)

lemma reads_nth:
  "reads h rs t \<Longrightarrow> i < length rs \<Longrightarrow> node_reads (reads h) h (rs ! i) (t ! i)"
  by (auto simp: reads_iff[of h rs t] list_all2_conv_all_nth)

section \<open>The effect of the editing operations\<close>

lemma node_reads_alloc:
  "node_reads (reads h) h r f \<Longrightarrow> node_reads (reads (h @ [obj])) (h @ [obj]) r f"
  by (auto simp: node_reads_def nth_append intro: reads_alloc)

lemma addField_eq: "addField h fields = (h @ [defaultField], fields @ [length h])"
  by (simp add: addField_def alloc_def)

lemma addField_reads:
  assumes "reads h fields t"
  shows "reads (h @ [defaultField]) (fields @ [length h]) (t @ [Field '''' String []])"
proof -
  let ?h = "h @ [defaultField]"
  from assms have "list_all2 (node_reads (reads h) h) fields t"
    by (simp only: reads_iff[of h fields t])
  then have "list_all2 (node_reads (reads ?h) ?h) fields t"
    by (rule list_all2_mono) (rule node_reads_alloc)
  moreover have "node_reads (reads ?h) ?h (length h) (Field '''' String [])"
    by (simp add: node_reads_def defaultField_def reads_Nil)
  ultimately have "list_all2 (node_reads (reads ?h) ?h) (fields @ [length h]) (t @ [Field '''' String []])"
    by (simp add: list_all2_appendI)
  then show ?thesis
    by (simp only: reads_iff[of ?h "fields @ [length h]"])
qed

lemma updateField_eq:
  assumes "reads h fields t" and "in_range fields index"
  shows "updateField h fields index updated =
           Inr (h @ [spread (h ! (fields ! nat index)) updated], fields[nat index := length h])"
proof -
  from assms(2) have "nat index < length fields" by (auto simp: in_range_def)
  then have "fields ! nat index < length h"
    using assms(1) by (auto intro: reads_refs_valid)
  then show ?thesis
    using assms(2) by (simp add: updateField_def alloc_def)
qed

lemma updateField_reads:
  assumes "reads h fields t" and "in_range fields index" and "reads_children h updated cs"
  shows "reads (h @ [spread (h ! (fields ! nat index)) updated]) (fields[nat index := length h])
           (t[nat index := merged (t ! nat index) updated cs])"
proof -
  let ?i = "nat index"
  let ?r = "fields ! ?i"
  let ?h = "h @ [spread (h ! ?r) updated]"
  from assms(2) have i: "?i < length fields" by (auto simp: in_range_def)
  from assms(1) i have old: "node_reads (reads h) h ?r (t ! ?i)" by (rule reads_nth)
  from assms(1) have "list_all2 (node_reads (reads h) h) fields t"
    by (simp only: reads_iff[of h fields t])
  then have "list_all2 (node_reads (reads ?h) ?h) fields t"
    by (rule list_all2_mono) (rule node_reads_alloc)
  moreover have "node_reads (reads ?h) ?h (length h) (merged (t ! ?i) updated cs)"
  proof -
    have "reads ?h (ochildren (spread (h ! ?r) updated)) (children (merged (t ! ?i) updated cs))"
    proof (cases "pchildren updated")
      case None
      with old show ?thesis
        by (auto simp: spread_def merged_def node_reads_def intro: reads_alloc)
    next
      case (Some rs)
      with assms(3) show ?thesis
        by (auto simp: spread_def merged_def reads_children_def intro: reads_alloc)
    qed
    with old show ?thesis
      by (auto simp: node_reads_def spread_def merged_def split: option.splits)
  qed
  ultimately have "list_all2 (node_reads (reads ?h) ?h) (fields[?i := length h])
      (t[?i := merged (t ! ?i) updated cs])"
    by (rule list_all2_update_cong)
  then show ?thesis
    by (simp only: reads_iff[of ?h "fields[?i := length h]"])
qed

lemma removeField_keeps_all:
  assumes "\<not> in_range fields index"
  shows "removeField fields index = fields"
proof -
  have "filter (\<lambda>(_, i). int i \<noteq> index) (zip fields [0 ..< length fields])
        = zip fields [0 ..< length fields]"
    using assms by (auto simp: filter_id_conv in_range_def in_set_zip)
  then show ?thesis by (simp add: removeField_def)
qed

lemma filter_zip_upt:
  "map fst (filter (\<lambda>(_, i). i \<noteq> k) (zip xs [0 ..< length xs]))
     = take k xs @ drop (Suc k) xs"
proof (induction xs rule: rev_induct)
  case Nil
  show ?case by simp
next
  case (snoc x xs)
  consider "k < length xs" | "k = length xs" | "length xs < k" by linarith
  then show ?case
  proof cases
    case 1
    with snoc show ?thesis by simp
  next
    case 2
    with snoc show ?thesis by simp
  next
    case 3
    with snoc show ?thesis by simp
  qed
qed

lemma removeField_in_range:
  assumes "in_range fields index"
  shows "removeField fields index = take (nat index) fields @ drop (Suc (nat index)) fields"
proof -
  from assms have "(\<lambda>(_ :: 'a, i). int i \<noteq> index) = (\<lambda>(_, i). i \<noteq> nat index)"
    by (auto simp: in_range_def fun_eq_iff)
  then show ?thesis
    using filter_zip_upt[of "nat index" fields] by (simp add: removeField_def)
qed

lemma reads_take_drop:
  assumes "reads h fields t"
  shows "reads h (take i fields @ drop j fields) (take i t @ drop j t)"
proof -
  from assms have "list_all2 (node_reads (reads h) h) fields t"
    by (simp only: reads_iff[of h fields t])
  then have "list_all2 (node_reads (reads h) h) (take i fields @ drop j fields) (take i t @ drop j t)"
    by (intro list_all2_appendI list_all2_takeI list_all2_dropI)
  then show ?thesis
    by (simp only: reads_iff[of h "take i fields @ drop j fields"])
qed

section \<open>Dormant children and the order of keys\<close>

lemma generateSchema_update:
  assumes "i < length t" and "key g = key (t ! i)" and "entry g = entry (t ! i)"
  shows "generateSchema (t[i := g]) = generateSchema t"
proof (rule generateSchema_cong)
  from assms show "map key (t[i := g]) = map key t"
    by (simp add: map_update list_update_same_conv)
  from assms show "map entry (t[i := g]) = map entry t"
    by (simp add: map_update list_update_same_conv)
qed

lemma dormant_children:
  "nodeAt p t = Some f \<Longrightarrow> type f \<noteq> Nested \<Longrightarrow>
     generateSchema (replaceChildrenAt p cs t) = generateSchema t"
proof (induction p cs t rule: replaceChildrenAt.induct)
  case (1 cs t)
  then show ?case by simp
next
  case (2 i cs t)
  then show ?case
    by (auto simp: entry_def split: if_splits intro!: generateSchema_update)
next
  case (3 i j p cs t)
  show ?case
  proof (cases "i < length t")
    case True
    with "3.prems" have "nodeAt (j # p) (children (t ! i)) = Some f" by simp
    with "3.IH" True "3.prems"(2)
    have "generateSchema (replaceChildrenAt (j # p) cs (children (t ! i)))
            = generateSchema (children (t ! i))" by simp
    with True show ?thesis
      by (auto simp: entry_def intro!: generateSchema_update)
  next
    case False
    then show ?thesis by simp
  qed
qed

lemma map_insort_key:
  "map g (insort_key (\<lambda>p. f (g p)) x xs) = insort_key f (g x) (map g xs)"
  by (induction xs) auto

lemma map_sort_key: "map g (sort_key (\<lambda>p. f (g p)) xs) = sort_key f (map g xs)"
  by (induction xs) (auto simp: map_insort_key)

lemma own_keys_eq:
  "own_keys obj =
     sort_key dec_val (filter is_array_index (map fst (own obj)))
     @ filter (\<lambda>k. \<not> is_array_index k) (map fst (own obj))"
  by (simp add: own_keys_def own_entries_def map_sort_key filter_map comp_def)

lemma key_order:
  "own_keys (generateSchema t) =
     sort_key dec_val (filter is_array_index (first_occurrences (listed t)))
     @ filter (\<lambda>k. \<not> is_array_index k) (first_occurrences (listed t))"
  by (simp only: own_keys_eq keys_generateSchema)

section \<open>The claims\<close>

subsection \<open>The derivation\<close>

lemma visit_skips_empty_key: "key f = '''' \<Longrightarrow> visit schema f = schema"
  by (simp add: visit_def)

lemma visit_stores_entry:
  "key f \<noteq> '''' \<Longrightarrow> key f \<noteq> ''__proto__'' \<Longrightarrow>
     own_lookup (visit schema f) (key f) = Some (entry f)"
  by (simp add: own_lookup_def own_visit update_conv')

lemma entry_by_type:
  "entry f = (case type f of String \<Rightarrow> JStr '''' | Number \<Rightarrow> JNum 0
              | Nested \<Rightarrow> JObj (generateSchema (children f)))"
  by (cases "type f") (simp_all add: entry_def)

lemma key_set_generateSchema:
  "set (own_keys (generateSchema t)) = {k \<in> key ` set t. k \<noteq> '''' \<and> k \<noteq> ''__proto__''}"
  by (auto simp: own_keys_eq keys_generateSchema set_first_occurrences listed_def)

lemma examples_of_derivation:
  "generateSchema [Field ''name'' String [], Field ''age'' Number []]
     = Obj [(''name'', JStr ''''), (''age'', JNum 0)] None"
  "generateSchema [Field ''address'' Nested [Field ''city'' String []]]
     = Obj [(''address'', JObj (Obj [(''city'', JStr '''')] None))] None"
  "generateSchema [Field '''' String [], Field ''x'' Number []] = Obj [(''x'', JNum 0)] None"
  "generateSchema [Field ''a'' Nested []] = Obj [(''a'', JObj (Obj [] None))] None"
  by code_simp+

text \<open>
  Claim C1. Processing the nodes in sequence order, \<open>generateSchema\<close> lets a node with the
  empty key contribute nothing; for any other node the entry of the output under the node's
  key is the derivation of its children when its type is \<open>Nested\<close>, the empty string when
  it is \<open>String\<close> and \<open>0\<close> when it is \<open>Number\<close>.

  The code does so for every key but one (\<open>visit_skips_empty_key\<close>, \<open>visit_stores_entry\<close>,
  \<open>entry_by_type\<close>). For a node named \<open>__proto__\<close> the assignment \<open>schema[key] = ...\<close> reaches
  the accessor of \<open>Object.prototype\<close> and creates no property: whatever the node's type, the
  output has no entry under its key.
\<close>

theorem C1_proto_node_gets_no_entry:
  "own_lookup (generateSchema [Field ''__proto__'' String []]) ''__proto__'' = None
   \<and> own_lookup (generateSchema [Field ''__proto__'' Number []]) ''__proto__'' = None
   \<and> own_lookup (generateSchema [Field ''__proto__'' Nested [Field ''a'' String []]])
         ''__proto__'' = None"
  by code_simp

text \<open>
  Claim C2. The key set of \<open>generateSchema t\<close> is exactly the set of the non-empty keys of
  the top-level nodes of \<open>t\<close>; where several nodes share a key the value is the one of the
  last; a tree without a non-empty key derives to the empty mapping.

  The code gives the last node's value (\<open>lookup_generateSchema\<close>) and the keys other than
  \<open>__proto__\<close> (\<open>key_set_generateSchema\<close>), but a field the user names \<open>__proto__\<close> is
  missing from the output: the tree below has the two non-empty keys \<open>__proto__\<close> and \<open>a\<close>,
  and its derivation has the key \<open>a\<close> alone.
\<close>

theorem C2_proto_key_missing_from_key_set:
  "own_keys (generateSchema [Field ''__proto__'' String [], Field ''a'' Number []]) = [''a'']
   \<and> generateSchema [Field ''__proto__'' String []] = empty_obj"
  by code_simp

subsection \<open>The editing operations\<close>

lemma updateChildren_eq:
  assumes "reads h fields t" and "in_range fields index"
  shows "updateChildren h fields index cs =
           Inr (h[fields ! nat index :=
                    FieldObj (okey (h ! (fields ! nat index))) (otype (h ! (fields ! nat index))) cs],
                fields)"
proof -
  from assms(2) have "nat index < length fields" by (auto simp: in_range_def)
  then have "fields ! nat index < length h"
    using assms(1) by (auto intro: reads_refs_valid)
  then show ?thesis
    using assms(2) by (simp add: updateChildren_def Let_def)
qed

lemma updateChildren_writes_shared_object:
  assumes "reads h fields t" and "in_range fields index"
    and "updateChildren h fields index cs = Inr (h', fields')"
  shows "fields' = fields \<and> ochildren (h' ! (fields ! nat index)) = cs"
proof -
  from assms(2) have "nat index < length fields" by (auto simp: in_range_def)
  then have r: "fields ! nat index < length h"
    using assms(1) by (auto intro: reads_refs_valid)
  from assms(3) updateChildren_eq[OF assms(1,2), of cs]
  have h': "h' = h[fields ! nat index :=
      FieldObj (okey (h ! (fields ! nat index))) (otype (h ! (fields ! nat index))) cs]"
    and f: "fields' = fields"
    by auto
  from r show ?thesis
    by (simp add: h' f)
qed

text \<open>
  Claim C3. For an index in range, \<open>updateChildren\<close> returns a new tree whose node at the
  index has the new children and its key and type unchanged, all other nodes unchanged, and
  it does not mutate the nodes of the input tree: the input is left as it was.

  The array the code returns is a copy, but the node in it is the input's own object, and
  the code assigns to its \<open>children\<close> (\<open>updateChildren_writes_shared_object\<close>: the
  returned array is the input's, and the object at \<open>fields[index]\<close> has the new children),
  where \<open>updateField\<close> builds a new object. Below, the input array \<open>[0]\<close>
  stands for the tree \<open>[{a: Nested, children: []}]\<close> before the call and for
  \<open>[{a: Nested, children: [{"": String}]}]\<close> after it.
\<close>

theorem C3_updateChildren_writes_input_node:
  "tree_of 2 [FieldObj ''a'' Nested [], FieldObj '''' String []] [0]
     = Some [Field ''a'' Nested []]
   \<and> updateChildren [FieldObj ''a'' Nested [], FieldObj '''' String []] [0] 0 [1]
     = Inr ([FieldObj ''a'' Nested [1], FieldObj '''' String []], [0])
   \<and> tree_of 2 [FieldObj ''a'' Nested [1], FieldObj '''' String []] [0]
     = Some [Field ''a'' Nested [Field '''' String []]]"
  by code_simp

text \<open>
  Claim C4. For an index in range and any partial record, \<open>updateField\<close> replaces the node
  at the index by the shallow merge of its fields and the partial record, leaves every other
  position as it was and keeps the order; so a change of type away from \<open>Nested\<close> leaves the
  children in place, and a change back to \<open>Nested\<close> shows the same children again.

  The array \<open>fields\<close> stands for the tree \<open>t\<close> in the store \<open>h\<close>. After the call the returned
  array stands for \<open>t\<close> with the merged node at the index, and \<open>fields\<close> still stands for
  \<open>t\<close>. The second part retypes the node to any \<open>ty\<close> and then to \<open>Nested\<close>: the node keeps
  its key and children through both steps.
\<close>

theorem C4_updateField_merges_one_node:
  assumes "reads h fields t" and "in_range fields index" and "reads_children h updated cs"
  shows "(\<exists>h' fields'. updateField h fields index updated = Inr (h', fields')
            \<and> reads h' fields' (t[nat index := merged (t ! nat index) updated cs])
            \<and> reads h' fields t)
         \<and> (\<exists>h1 fields1 h2 fields2.
              updateField h fields index (Partial None (Some ty) None) = Inr (h1, fields1)
            \<and> reads h1 fields1
                 (t[nat index := Field (key (t ! nat index)) ty (children (t ! nat index))])
            \<and> updateField h1 fields1 index (Partial None (Some Nested) None) = Inr (h2, fields2)
            \<and> reads h2 fields2
                 (t[nat index := Field (key (t ! nat index)) Nested (children (t ! nat index))]))"
proof
  let ?i = "nat index"
  show "\<exists>h' fields'. updateField h fields index updated = Inr (h', fields')
          \<and> reads h' fields' (t[?i := merged (t ! ?i) updated cs]) \<and> reads h' fields t"
    using updateField_eq[OF assms(1,2)] updateField_reads[OF assms]
      reads_alloc[OF assms(1)] by blast
next
  let ?i = "nat index"
  let ?p1 = "Partial None (Some ty) None"
  let ?p2 = "Partial None (Some Nested) None"
  let ?h1 = "h @ [spread (h ! (fields ! ?i)) ?p1]"
  let ?f1 = "fields[?i := length h]"
  let ?t1 = "t[?i := Field (key (t ! ?i)) ty (children (t ! ?i))]"
  from assms(2) have i: "?i < length fields" by (auto simp: in_range_def)
  from assms(1) have len: "length fields = length t" by (rule reads_length)
  have rc: "reads_children h' (Partial None (Some x) None) []" for h' x
    by (simp add: reads_children_def)
  have m1: "merged (t ! ?i) ?p1 [] = Field (key (t ! ?i)) ty (children (t ! ?i))"
    by (simp add: merged_def)
  have step1: "updateField h fields index ?p1 = Inr (?h1, ?f1)"
    by (rule updateField_eq[OF assms(1,2)])
  have r1: "reads ?h1 ?f1 ?t1"
    using updateField_reads[OF assms(1,2) rc[of h ty]] by (simp only: m1)
  have in1: "in_range ?f1 index"
    using assms(2) by (simp add: in_range_def)
  have m2: "merged (?t1 ! ?i) ?p2 [] = Field (key (t ! ?i)) Nested (children (t ! ?i))"
    using i len by (simp add: merged_def)
  have step2: "updateField ?h1 ?f1 index ?p2
      = Inr (?h1 @ [spread (?h1 ! (?f1 ! ?i)) ?p2], ?f1[?i := length ?h1])"
    by (rule updateField_eq[OF r1 in1])
  have r2: "reads (?h1 @ [spread (?h1 ! (?f1 ! ?i)) ?p2]) (?f1[?i := length ?h1])
      (t[?i := Field (key (t ! ?i)) Nested (children (t ! ?i))])"
    using updateField_reads[OF r1 in1 rc[of ?h1 Nested]] by (simp only: m2 list_update_overwrite)
  from step1 r1 step2 r2
  show "\<exists>h1 fields1 h2 fields2.
          updateField h fields index ?p1 = Inr (h1, fields1)
        \<and> reads h1 fields1 ?t1
        \<and> updateField h1 fields1 index ?p2 = Inr (h2, fields2)
        \<and> reads h2 fields2 (t[?i := Field (key (t ! ?i)) Nested (children (t ! ?i))])"
    by blast
qed

theorem C4_updateField_witness:
  "reads [FieldObj ''a'' Nested [1], FieldObj ''b'' String []] [0]
     [Field ''a'' Nested [Field ''b'' String []]]
   \<and> in_range [0 :: ref] 0
   \<and> reads_children [FieldObj ''a'' Nested [1], FieldObj ''b'' String []]
        (Partial (Some ''c'') None None) []
   \<and> (\<exists>h' fields'.
         updateField [FieldObj ''a'' Nested [1], FieldObj ''b'' String []] [0] 0
           (Partial (Some ''c'') None None) = Inr (h', fields')
       \<and> reads h' fields' [Field ''c'' Nested [Field ''b'' String []]]
       \<and> reads h' [0] [Field ''a'' Nested [Field ''b'' String []]])
   \<and> (\<exists>h1 fields1 h2 fields2.
         updateField [FieldObj ''a'' Nested [1], FieldObj ''b'' String []] [0] 0
           (Partial None (Some Number) None) = Inr (h1, fields1)
       \<and> reads h1 fields1 [Field ''a'' Number [Field ''b'' String []]]
       \<and> updateField h1 fields1 0 (Partial None (Some Nested) None) = Inr (h2, fields2)
       \<and> reads h2 fields2 [Field ''a'' Nested [Field ''b'' String []]])"
proof -
  let ?h = "[FieldObj ''a'' Nested [1], FieldObj ''b'' String []]"
  let ?t = "[Field ''a'' Nested [Field ''b'' String []]]"
  let ?p = "Partial (Some ''c'') None None"
  have r: "reads ?h [0] ?t"
    by (rule readsI[of 2]) code_simp
  have i: "in_range [0 :: ref] 0"
    by (simp add: in_range_def)
  have c: "reads_children ?h ?p []"
    by (simp add: reads_children_def)
  from C4_updateField_merges_one_node[OF r i c, of Number] r i c
  show ?thesis
    by (simp add: merged_def)
qed

text \<open>
  Claim C5. For an index in range, \<open>removeField\<close> returns the elements of the tree except
  the one at the index, the others in their order; the length decreases by exactly one.

  \<open>fields\<close> stands for the tree \<open>t\<close>; the returned array holds the references before and
  after the index and stands for \<open>t\<close> without its node at the index.
\<close>

theorem C5_removeField_drops_one_element:
  assumes "reads h fields t" and "in_range fields index"
  shows "removeField fields index = take (nat index) fields @ drop (Suc (nat index)) fields
         \<and> reads h (removeField fields index) (take (nat index) t @ drop (Suc (nat index)) t)
         \<and> Suc (length (removeField fields index)) = length fields"
proof -
  from assms(2) have "nat index < length fields" by (auto simp: in_range_def)
  then show ?thesis
    using removeField_in_range[OF assms(2)] reads_take_drop[OF assms(1)] by simp
qed

theorem C5_removeField_witness:
  "reads [FieldObj ''a'' String [], FieldObj ''b'' String []] [0, 1]
     [Field ''a'' String [], Field ''b'' String []]
   \<and> in_range [0 :: ref, 1] 0
   \<and> removeField [0 :: ref, 1] 0 = [1]
   \<and> reads [FieldObj ''a'' String [], FieldObj ''b'' String []] (removeField [0 :: ref, 1] 0)
        [Field ''b'' String []]
   \<and> generateSchema [Field ''b'' String []] = Obj [(''b'', JStr '''')] None"
proof -
  have r: "reads [FieldObj ''a'' String [], FieldObj ''b'' String []] [0, 1]
      [Field ''a'' String [], Field ''b'' String []]"
    by (rule readsI[of 1]) code_simp
  have i: "in_range [0 :: ref, 1] 0"
    by (simp add: in_range_def)
  have g: "generateSchema [Field ''b'' String []] = Obj [(''b'', JStr '''')] None"
    by code_simp
  from C5_removeField_drops_one_element[OF r i] r i g
  show ?thesis by auto
qed

text \<open>
  Claim C9. For an index out of range, negative or at least the length of the tree,
  \<open>removeField\<close> returns a tree equal to its input: nothing is removed or reordered, and no
  error is raised.
\<close>

theorem C9_removeField_out_of_range:
  "index < 0 \<or> int (length fields) \<le> index \<Longrightarrow> removeField fields index = fields"
  by (rule removeField_keeps_all) (auto simp: in_range_def)

theorem C9_removeField_witness:
  "((-1 :: int) < 0 \<or> int (length [4 :: ref, 5, 6]) \<le> -1)
   \<and> removeField [4 :: ref, 5, 6] (-1) = [4, 5, 6]
   \<and> ((3 :: int) < 0 \<or> int (length [4 :: ref, 5, 6]) \<le> 3)
   \<and> removeField [4 :: ref, 5, 6] 3 = [4, 5, 6]"
  using C9_removeField_out_of_range[of "-1" "[4 :: ref, 5, 6]"]
    C9_removeField_out_of_range[of 3 "[4 :: ref, 5, 6]"]
  by simp

text \<open>
  Claim C6. \<open>addField\<close> appends exactly one newly created node with key \<open>""\<close>, type
  \<open>String\<close> and no children at the end of the tree, and the derivation of the result equals
  the derivation of the tree before: the new node has the empty key.

  \<open>fields\<close> stands for the tree \<open>t\<close>; the returned array is \<open>fields\<close> followed by one
  reference to an object that the store did not hold before, and it stands for \<open>t\<close> followed
  by the default node.
\<close>

theorem C6_addField_leaves_derivation:
  assumes "reads h fields t"
  shows "\<exists>h' r. addField h fields = (h', fields @ [r]) \<and> r \<notin> set fields \<and> length h \<le> r
           \<and> reads h' (fields @ [r]) (t @ [Field '''' String []])
           \<and> reads h' fields t
           \<and> generateSchema (t @ [Field '''' String []]) = generateSchema t"
proof -
  have "length h \<notin> set fields"
    using reads_refs_valid[OF assms, of "length h"] by auto
  then show ?thesis
    using addField_eq[of h fields] addField_reads[OF assms] reads_alloc[OF assms]
      generateSchema_addDefault[of t]
    by blast
qed

theorem C6_addField_witness:
  "reads [FieldObj ''x'' Number []] [0] [Field ''x'' Number []]
   \<and> (\<exists>h' r. addField [FieldObj ''x'' Number []] [0] = (h', [0] @ [r]) \<and> r \<notin> set [0]
         \<and> length [FieldObj ''x'' Number []] \<le> r
         \<and> reads h' ([0] @ [r]) ([Field ''x'' Number []] @ [Field '''' String []])
         \<and> reads h' [0] [Field ''x'' Number []]
         \<and> generateSchema ([Field ''x'' Number []] @ [Field '''' String []])
              = generateSchema [Field ''x'' Number []])
   \<and> generateSchema [Field ''x'' Number []] = Obj [(''x'', JNum 0)] None"
proof -
  have r: "reads [FieldObj ''x'' Number []] [0] [Field ''x'' Number []]"
    by (rule readsI[of 1]) code_simp
  have g: "generateSchema [Field ''x'' Number []] = Obj [(''x'', JNum 0)] None"
    by code_simp
  from C6_addField_leaves_derivation[OF r] r g
  show ?thesis by blast
qed

subsection \<open>Dormant children\<close>

lemma nodeAt_replaceChildrenAt:
  "nodeAt p t = Some f \<Longrightarrow>
     nodeAt p (replaceChildrenAt p cs t) = Some (Field (key f) (type f) cs)"
  by (induction p cs t rule: replaceChildrenAt.induct) (auto split: if_splits)

text \<open>
  Claim C7. The children of a node whose type is not \<open>Nested\<close> do not affect the
  derivation: replacing the children of any such node of a tree by an arbitrary sequence
  gives a tree with the same derivation.

  The node is any node of the tree, at any depth, named by its path \<open>p\<close>; after the
  replacement the node at \<open>p\<close> has the children \<open>cs\<close>.
\<close>

theorem C7_children_of_non_Nested_ignored:
  assumes "nodeAt p t = Some f" and "type f \<noteq> Nested"
  shows "nodeAt p (replaceChildrenAt p cs t) = Some (Field (key f) (type f) cs)
         \<and> generateSchema (replaceChildrenAt p cs t) = generateSchema t"
  using assms by (simp add: nodeAt_replaceChildrenAt dormant_children)

theorem C7_children_of_non_Nested_witness:
  "nodeAt [0, 1] [Field ''a'' Nested [Field ''b'' String [], Field ''c'' Number []]]
     = Some (Field ''c'' Number [])
   \<and> type (Field ''c'' Number []) \<noteq> Nested
   \<and> replaceChildrenAt [0, 1] [Field ''z'' String []]
        [Field ''a'' Nested [Field ''b'' String [], Field ''c'' Number []]]
     = [Field ''a'' Nested [Field ''b'' String [], Field ''c'' Number [Field ''z'' String []]]]
   \<and> generateSchema
        (replaceChildrenAt [0, 1] [Field ''z'' String []]
           [Field ''a'' Nested [Field ''b'' String [], Field ''c'' Number []]])
     = generateSchema [Field ''a'' Nested [Field ''b'' String [], Field ''c'' Number []]]"
proof -
  have n: "nodeAt [0, 1] [Field ''a'' Nested [Field ''b'' String [], Field ''c'' Number []]]
      = Some (Field ''c'' Number [])"
    by simp
  have ty: "type (Field ''c'' Number []) \<noteq> Nested"
    by simp
  from C7_children_of_non_Nested_ignored[OF n ty, of "[Field ''z'' String []]"] n ty
  show ?thesis by simp
qed

subsection \<open>The order of the keys\<close>

text \<open>
  Claim C10. When several nodes of one level share a non-empty key, the derived mapping
  lists the key at the position of the earliest of them, and the value is the one of the
  latest.

  As amended: the derived mapping lists first the keys that are array indices, in ascending
  numeric order whatever the order of the nodes, and then every other key it has at the
  position of the earliest node with that key; the value under a key is the one of the
  latest node with it.
\<close>

theorem C10_key_order:
  "own_keys (generateSchema t) =
     sort_key dec_val (filter is_array_index (first_occurrences (listed t)))
     @ filter (\<lambda>k. \<not> is_array_index k) (first_occurrences (listed t))
   \<and> own_lookup (generateSchema t) k =
       (if k = '''' \<or> k = ''__proto__'' then None
        else map_option entry (find (\<lambda>f. key f = k) (rev t)))"
  by (simp only: key_order lookup_generateSchema simp_thms)

text \<open>
  The claim as it stands, that the keys are listed in the order \<open>first_occurrences (named t)\<close>,
  fails on keys that are array indices: the key \<open>2\<close> occurs first, before \<open>1\<close>, and is
  listed after it.
\<close>

theorem C10_counterexample:
  "own_keys (generateSchema
       [Field ''2'' String [], Field ''1'' String [], Field ''2'' Number []]) = [''1'', ''2'']
   \<and> first_occurrences
         (named [Field ''2'' String [], Field ''1'' String [], Field ''2'' Number []])
       = [''2'', ''1'']
   \<and> own_keys (generateSchema
         [Field ''2'' String [], Field ''1'' String [], Field ''2'' Number []])
       \<noteq> first_occurrences
           (named [Field ''2'' String [], Field ''1'' String [], Field ''2'' Number []])"
  by code_simp

subsection \<open>The JSON text\<close>

lemma is_body_append: "is_body b \<Longrightarrow> CHR 0x0A \<notin> set q \<Longrightarrow> is_body (b @ q)"
  by (simp add: is_body_def)

lemma set_hex4: "set (hex4 n) \<subseteq> set hex_digits"
proof -
  have "hex_digits ! (k mod 16) \<in> set hex_digits" for k :: nat
    by (rule nth_mem) (simp add: hex_digits_def)
  then show ?thesis
    unfolding hex4_def by auto
qed

lemma newline_notin_quote_char: "CHR 0x0A \<notin> set (quote_char c)"
proof -
  have "CHR 0x0A \<notin> set hex_digits" by (simp add: hex_digits_def)
  with set_hex4[of "of_char c"] have "CHR 0x0A \<notin> set (hex4 (of_char c))" by blast
  then show ?thesis by (simp add: quote_char_def)
qed

lemma is_body_QuoteJSONString: "is_body (QuoteJSONString s @ q) \<longleftrightarrow> CHR 0x0A \<notin> set q"
  by (auto simp: is_body_def QuoteJSONString_def newline_notin_quote_char)

lemma dec_digits_chars: "dec_digits n \<noteq> [] \<and> set (dec_digits n) \<subseteq> set decimal_digits"
proof (induction n rule: dec_digits.induct)
  case (1 n)
  have d: "decimal_digits ! k \<in> set decimal_digits" if "k < 10" for k :: nat
    by (rule nth_mem) (use that in \<open>simp add: decimal_digits_def\<close>)
  show ?case
  proof (cases "n < 10")
    case True
    then show ?thesis
      using d[of n] by (subst (1 2) dec_digits.simps) simp
  next
    case False
    then show ?thesis
      using "1.IH" d[of "n mod 10"]
      by (subst (1 2) dec_digits.simps) simp
  qed
qed

lemma is_body_number_to_string: "is_body (number_to_string n)"
proof -
  have "is_body (dec_digits k)" for k
  proof -
    from dec_digits_chars[of k] have ne: "dec_digits k \<noteq> []"
      and sub: "set (dec_digits k) \<subseteq> set decimal_digits" by auto
    from ne have "hd (dec_digits k) \<in> set (dec_digits k)" by simp
    with sub have "hd (dec_digits k) \<in> set decimal_digits" by blast
    then have "hd (dec_digits k) \<noteq> CHR '' ''" by (auto simp: decimal_digits_def)
    moreover from sub have "CHR 0x0A \<notin> set (dec_digits k)" by (auto simp: decimal_digits_def)
    ultimately show ?thesis using ne by (simp add: is_body_def)
  qed
  from this[of "nat n"] this[of "nat (- n)"] show ?thesis
    by (auto simp: number_to_string_def is_body_def)
qed

lemma join_Cons: "join sep (x # xs) = (if xs = [] then x else x @ sep @ join sep xs)"
  by (cases xs) simp_all

lemma render_Cons:
  "render (r # rs) = (if rs = [] then indent_row r else indent_row r @ CHR 0x0A # render rs)"
  by (simp add: render_def join_Cons)

lemma render_append:
  "a \<noteq> [] \<Longrightarrow> b \<noteq> [] \<Longrightarrow> render (a @ b) = render a @ CHR 0x0A # render b"
  by (induction a) (simp_all add: render_Cons)

lemma add_suffix_snoc: "add_suffix s (rs @ [(d, b)]) = rs @ [(d, b @ s)]"
  by (simp add: add_suffix_def)

lemma add_suffix_nonempty: "rs \<noteq> [] \<Longrightarrow> add_suffix s rs \<noteq> []"
  by (simp add: add_suffix_def)

lemma render_add_suffix:
  assumes "rs \<noteq> []"
  shows "render (add_suffix s rs) = render rs @ s"
proof -
  from assms obtain rs' d b where rs: "rs = rs' @ [(d, b)]"
    by (cases rs rule: rev_cases) auto
  show ?thesis
  proof (cases "rs' = []")
    case True
    then show ?thesis
      by (simp add: rs add_suffix_snoc[of s "[]", simplified] render_Cons indent_row_def)
  next
    case False
    then show ?thesis
      by (simp add: rs add_suffix_snoc render_append render_Cons indent_row_def)
  qed
qed

lemma render_members:
  assumes "\<And>p. p \<in> set es \<Longrightarrow> f p \<noteq> [] \<and> render (f p) = ind @ g p" and "es \<noteq> []"
  shows "concat (separate (map f es)) \<noteq> []
         \<and> render (concat (separate (map f es))) = ind @ join ('','' @ CHR 0x0A # ind) (map g es)"
  using assms
proof (induction es)
  case Nil
  then show ?case by simp
next
  case (Cons p es)
  from Cons.prems(1)[of p] have p: "f p \<noteq> []" "render (f p) = ind @ g p"
    by simp_all
  show ?case
  proof (cases es)
    case Nil
    with p show ?thesis by simp
  next
    case (Cons q qs)
    have rest: "concat (separate (map f es)) \<noteq> []
        \<and> render (concat (separate (map f es)))
            = ind @ join ('','' @ CHR 0x0A # ind) (map g es)"
      by (rule Cons.IH) (use Cons.prems Cons in auto)
    have "concat (separate (map f (p # es)))
        = add_suffix '','' (f p) @ concat (separate (map f es))"
      by (simp add: Cons)
    moreover have "render (add_suffix '','' (f p) @ concat (separate (map f es)))
        = (render (f p) @ '','') @ CHR 0x0A # render (concat (separate (map f es)))"
      using rest p(1) by (simp add: render_append add_suffix_nonempty render_add_suffix)
    ultimately show ?thesis
      using rest p by (simp add: Cons add_suffix_nonempty)
  qed
qed

lemma serialize_layout:
  assumes "gap = replicate 2 (CHR '' '')" and "indent = replicate (2 * d) (CHR '' '')"
  shows "layout d pre v \<noteq> []
         \<and> render (layout d pre v) = indent @ pre @ SerializeJSONProperty gap indent v"
  using assms
proof (induction gap indent v arbitrary: d pre rule: SerializeJSONProperty.induct)
  case (1 gap indent s)
  then show ?case by (simp add: render_Cons indent_row_def)
next
  case (2 gap indent k)
  then show ?case by (simp add: render_Cons indent_row_def)
next
  case (3 gap indent obj)
  let ?nl = "CHR 0x0A"
  let ?ind' = "replicate (2 * Suc d) (CHR '' '')"
  let ?es = "own_entries obj"
  let ?block = "\<lambda>p. layout (Suc d) (QuoteJSONString (fst p) @ '': '') (snd p)"
  let ?member = "\<lambda>p. QuoteJSONString (fst p) @ '': '' @ SerializeJSONProperty gap ?ind' (snd p)"
  have ind': "indent @ gap = ?ind'"
    by (simp only: "3.prems" replicate_add[symmetric]) simp
  from "3.prems"(1) have gap: "gap \<noteq> []"
    by simp
  have row: "indent_row (d, b) = indent @ b" for b
    by (simp add: indent_row_def "3.prems"(2))
  show ?case
  proof (cases "?es = []")
    case True
    then show ?thesis
      by (simp add: render_Cons row)
  next
    case False
    have block: "?block p \<noteq> [] \<and> render (?block p) = ?ind' @ ?member p" if "p \<in> set ?es" for p
      using "3.IH"[OF refl ind'[symmetric] that "3.prems"(1) refl,
          of "QuoteJSONString (fst p) @ '': ''"]
      by simp
    from render_members[of ?es ?block ?ind' ?member, OF block False]
    have ne: "concat (separate (map ?block ?es)) \<noteq> []"
      and members: "render (concat (separate (map ?block ?es)))
          = ?ind' @ join ('','' @ ?nl # ?ind') (map ?member ?es)"
      by blast+
    have lay: "layout d pre (JObj obj)
        = (d, pre @ ''{'') # (concat (separate (map ?block ?es)) @ [(d, ''}'')])"
      using False by simp
    have shape: "render ((d, a) # (ms @ [(d, z)]))
        = (indent @ a) @ ?nl # render ms @ ?nl # (indent @ z)" if "ms \<noteq> []" for a z ms
      using that by (simp add: render_Cons render_append row)
    have r: "render (layout d pre (JObj obj))
        = (indent @ pre @ ''{'') @ ?nl # render (concat (separate (map ?block ?es)))
          @ ?nl # (indent @ ''}'')"
      unfolding lay by (rule shape[OF ne])
    have n: "layout d pre (JObj obj) \<noteq> []"
      unfolding lay by simp
    have ser: "SerializeJSONProperty gap indent (JObj obj)
        = ''{'' @ ?nl # ?ind' @ join ('','' @ ?nl # ?ind') (map ?member ?es) @ ?nl # indent @ ''}''"
      using False gap by (simp add: Let_def ind')
    show ?thesis
      unfolding r members ser using n by simp
  qed
qed

lemma is_body_prefix:
  assumes "is_body b" and "CHR 0x0A \<notin> set pre" and "pre = [] \<or> hd pre \<noteq> CHR '' ''"
  shows "is_body (pre @ b)"
  using assms by (cases pre) (auto simp: is_body_def)

lemma proper_add_suffix:
  assumes "proper_rows rs" and "CHR 0x0A \<notin> set s"
  shows "proper_rows (add_suffix s rs)"
proof (cases "rs = []")
  case True
  then show ?thesis by (simp add: add_suffix_def proper_rows_def)
next
  case False
  then obtain rs' d b where rs: "rs = rs' @ [(d, b)]"
    by (cases rs rule: rev_cases) auto
  with assms show ?thesis
    by (simp add: add_suffix_snoc proper_rows_def is_body_append)
qed

lemma proper_separate:
  "(\<And>b. b \<in> set bs \<Longrightarrow> proper_rows b) \<Longrightarrow> b \<in> set (separate bs) \<Longrightarrow> proper_rows b"
  by (induction bs arbitrary: b rule: separate.induct) (auto intro: proper_add_suffix)

lemma proper_concat: "(\<And>b. b \<in> set bs \<Longrightarrow> proper_rows b) \<Longrightarrow> proper_rows (concat bs)"
  by (auto simp: proper_rows_def list_all_iff)

lemma layout_proper:
  assumes "CHR 0x0A \<notin> set pre" and "pre = [] \<or> hd pre \<noteq> CHR '' ''"
  shows "proper_rows (layout d pre v)"
  using assms
proof (induction d pre v rule: layout.induct)
  case (1 d pre s)
  have "is_body (QuoteJSONString s @ [])"
    by (simp only: is_body_QuoteJSONString) simp
  then have "is_body (pre @ QuoteJSONString s)"
    using "1.prems" by (intro is_body_prefix) simp_all
  then show ?case by (simp add: proper_rows_def)
next
  case (2 d pre n)
  have "is_body (pre @ number_to_string n)"
    using "2.prems" by (intro is_body_prefix is_body_number_to_string)
  then show ?case by (simp add: proper_rows_def)
next
  case (3 d pre obj)
  let ?block = "\<lambda>p. layout (Suc d) (QuoteJSONString (fst p) @ '': '') (snd p)"
  have brace: "is_body (pre @ b)" if "b = ''{}'' \<or> b = ''{''" for b
    using "3.prems" that by (intro is_body_prefix) (auto simp: is_body_def)
  show ?case
  proof (cases "own_entries obj = []")
    case True
    then show ?thesis by (simp add: proper_rows_def brace)
  next
    case False
    have "proper_rows (?block p)" if "p \<in> set (own_entries obj)" for p
    proof (rule "3.IH"[OF False that])
      have q: "is_body (QuoteJSONString (fst p) @ '': '')"
        by (simp only: is_body_QuoteJSONString) simp
      then show "CHR 0x0A \<notin> set (QuoteJSONString (fst p) @ '': '')"
        by (simp add: is_body_def)
      from q show "QuoteJSONString (fst p) @ '': '' = []
          \<or> hd (QuoteJSONString (fst p) @ '': '') \<noteq> CHR '' ''"
        by (simp add: is_body_def)
    qed
    then have "proper_rows b" if "b \<in> set (map ?block (own_entries obj))" for b
      using that by auto
    then have "proper_rows (concat (separate (map ?block (own_entries obj))))"
      by (intro proper_concat) (rule proper_separate)
    moreover have "is_body ''}''"
      by (simp add: is_body_def)
    ultimately show ?thesis
      using False brace[of "''{''"] by (simp add: proper_rows_def)
  qed
qed

text \<open>
  Claim C8. For every non-empty field tree the output view shows the derived mapping as
  indented JSON text, with an indentation of two spaces.

  Whenever the tree has a node, the text the view shows is the rendering of the rows
  \<open>layout\<close> gives for the derived mapping: its keys in the order of \<open>own_entries\<close>, each
  member on a line of its own that is indented by exactly two spaces for every level of
  nesting, and braces around the members of every object. Every row has a proper body, so
  the rows are the lines of the text.
\<close>

theorem C8_output_is_two_space_indented_JSON:
  assumes "fields \<noteq> []"
  shows "JsonOutput fields = Code (render (layout 0 [] (JObj (generateSchema fields))))
         \<and> proper_rows (layout 0 [] (JObj (generateSchema fields)))"
proof -
  have "render (layout 0 [] (JObj (generateSchema fields)))
      = JSON_stringify (generateSchema fields) 2"
    using serialize_layout[of "replicate 2 (CHR '' '')" "[]" 0 "[]" "JObj (generateSchema fields)"]
    by (simp add: JSON_stringify_def del: layout.simps SerializeJSONProperty.simps)
  moreover have "proper_rows (layout 0 [] (JObj (generateSchema fields)))"
    by (rule layout_proper) simp_all
  ultimately show ?thesis
    using assms by (simp add: JsonOutput_def del: layout.simps)
qed

theorem C8_output_witness:
  "[Field ''address'' Nested [Field ''city'' String [], Field ''zip'' Number []],
    Field ''name'' String []] \<noteq> []
   \<and> layout 0 []
        (JObj (generateSchema
           [Field ''address'' Nested [Field ''city'' String [], Field ''zip'' Number []],
            Field ''name'' String []]))
       = [(0, ''{''),
          (1, [CHR 0x22] @ ''address'' @ [CHR 0x22] @ '': {''),
          (2, [CHR 0x22] @ ''city'' @ [CHR 0x22] @ '': '' @ [CHR 0x22, CHR 0x22] @ '',''),
          (2, [CHR 0x22] @ ''zip'' @ [CHR 0x22] @ '': 0''),
          (1, ''},''),
          (1, [CHR 0x22] @ ''name'' @ [CHR 0x22] @ '': '' @ [CHR 0x22, CHR 0x22]),
          (0, ''}'')]
   \<and> JsonOutput
        [Field ''address'' Nested [Field ''city'' String [], Field ''zip'' Number []],
         Field ''name'' String []]
       = Code (''{'' @ [CHR 0x0A]
               @ ''  '' @ [CHR 0x22] @ ''address'' @ [CHR 0x22] @ '': {'' @ [CHR 0x0A]
               @ ''    '' @ [CHR 0x22] @ ''city'' @ [CHR 0x22] @ '': '' @ [CHR 0x22, CHR 0x22]
               @ '','' @ [CHR 0x0A]
               @ ''    '' @ [CHR 0x22] @ ''zip'' @ [CHR 0x22] @ '': 0'' @ [CHR 0x0A]
               @ ''  },'' @ [CHR 0x0A]
               @ ''  '' @ [CHR 0x22] @ ''name'' @ [CHR 0x22] @ '': '' @ [CHR 0x22, CHR 0x22]
               @ [CHR 0x0A]
               @ ''}'')
   \<and> proper_rows
        (layout 0 []
           (JObj (generateSchema
              [Field ''address'' Nested [Field ''city'' String [], Field ''zip'' Number []],
               Field ''name'' String []])))"
proof -
  let ?t = "[Field ''address'' Nested [Field ''city'' String [], Field ''zip'' Number []],
             Field ''name'' String []]"
  have ne: "?t \<noteq> []"
    by simp
  have rows: "layout 0 [] (JObj (generateSchema ?t))
      = [(0, ''{''),
         (1, [CHR 0x22] @ ''address'' @ [CHR 0x22] @ '': {''),
         (2, [CHR 0x22] @ ''city'' @ [CHR 0x22] @ '': '' @ [CHR 0x22, CHR 0x22] @ '',''),
         (2, [CHR 0x22] @ ''zip'' @ [CHR 0x22] @ '': 0''),
         (1, ''},''),
         (1, [CHR 0x22] @ ''name'' @ [CHR 0x22] @ '': '' @ [CHR 0x22, CHR 0x22]),
         (0, ''}'')]"
    by code_simp
  have shown: "render [(0, ''{''),
         (1, [CHR 0x22] @ ''address'' @ [CHR 0x22] @ '': {''),
         (2, [CHR 0x22] @ ''city'' @ [CHR 0x22] @ '': '' @ [CHR 0x22, CHR 0x22] @ '',''),
         (2, [CHR 0x22] @ ''zip'' @ [CHR 0x22] @ '': 0''),
         (1, ''},''),
         (1, [CHR 0x22] @ ''name'' @ [CHR 0x22] @ '': '' @ [CHR 0x22, CHR 0x22]),
         (0, ''}'')]
      = ''{'' @ [CHR 0x0A]
        @ ''  '' @ [CHR 0x22] @ ''address'' @ [CHR 0x22] @ '': {'' @ [CHR 0x0A]
        @ ''    '' @ [CHR 0x22] @ ''city'' @ [CHR 0x22] @ '': '' @ [CHR 0x22, CHR 0x22]
        @ '','' @ [CHR 0x0A]
        @ ''    '' @ [CHR 0x22] @ ''zip'' @ [CHR 0x22] @ '': 0'' @ [CHR 0x0A]
        @ ''  },'' @ [CHR 0x0A]
        @ ''  '' @ [CHR 0x22] @ ''name'' @ [CHR 0x22] @ '': '' @ [CHR 0x22, CHR 0x22]
        @ [CHR 0x0A]
        @ ''}''"
    by code_simp
  from C8_output_is_two_space_indented_JSON[OF ne]
  have "JsonOutput ?t = Code (render (layout 0 [] (JObj (generateSchema ?t))))"
    and p: "proper_rows (layout 0 [] (JObj (generateSchema ?t)))"
    by blast+
  then have "JsonOutput ?t = Code (render [(0, ''{''),
         (1, [CHR 0x22] @ ''address'' @ [CHR 0x22] @ '': {''),
         (2, [CHR 0x22] @ ''city'' @ [CHR 0x22] @ '': '' @ [CHR 0x22, CHR 0x22] @ '',''),
         (2, [CHR 0x22] @ ''zip'' @ [CHR 0x22] @ '': 0''),
         (1, ''},''),
         (1, [CHR 0x22] @ ''name'' @ [CHR 0x22] @ '': '' @ [CHR 0x22, CHR 0x22]),
         (0, ''}'')])"
    by (simp only: rows)
  then have out: "JsonOutput ?t = Code (''{'' @ [CHR 0x0A]
        @ ''  '' @ [CHR 0x22] @ ''address'' @ [CHR 0x22] @ '': {'' @ [CHR 0x0A]
        @ ''    '' @ [CHR 0x22] @ ''city'' @ [CHR 0x22] @ '': '' @ [CHR 0x22, CHR 0x22]
        @ '','' @ [CHR 0x0A]
        @ ''    '' @ [CHR 0x22] @ ''zip'' @ [CHR 0x22] @ '': 0'' @ [CHR 0x0A]
        @ ''  },'' @ [CHR 0x0A]
        @ ''  '' @ [CHR 0x22] @ ''name'' @ [CHR 0x22] @ '': '' @ [CHR 0x22, CHR 0x22]
        @ [CHR 0x0A]
        @ ''}'')"
    by (simp only: shown)
  from ne rows out p show ?thesis
    by (intro conjI)
qed

end
